theory Spec2Isabelle
  imports Main "HOL-Library.Word" "HOL-Library.Sublist"
begin

unbundle bit_operations_syntax

section \<open>The arena allocator of malloc-and-free.c\<close>

text \<open>
  The C file keeps one static arena \<open>heap_area\<close> of \<open>HEAP_SIZE\<close> bytes and a chain of
  \<open>block_header_t\<close> records that live inside it. The model is for the 64-bit target the
  specification describes: \<open>size_t\<close> and pointers are 64-bit words, \<open>int\<close> is a 32-bit
  word, and \<open>sizeof(block_header_t)\<close> is 24.

  Memory is a store from addresses to header records: \<open>mem s p\<close> is what the three
  fields read through the pointer \<open>p\<close>, and an assignment \<open>p->f = v\<close> updates the one
  field of the one cell at \<open>p\<close>. The statements of a C block are applied to the store one
  after the other, so that a pointer that aliases another one is read as the C code reads
  it. Cells at different addresses are different objects, and \<open>free_list\<close> is kept
  apart from the store. This is how the C program behaves as long as the headers it
  writes do not overlap one another: in the states of the chain invariant \<open>chain_inv\<close>
  below, with \<open>free\<close> called on \<open>NULL\<close> or on the payload pointer of a block of the
  chain. Where headers overlap, or \<open>free\<close> is given another pointer, a store of the C
  program can change a neighbouring header, which the store of the model does not show.
  The loops of the source only read while they search; what they read is the same in
  both.

  Reading or writing through a null pointer is the fault \<open>NullDeref\<close>. A loop that
  does not come back is the value \<open>None\<close>.
\<close>

subsection \<open>Data\<close>

type_synonym addr = "64 word"
type_synonym size_t = "64 word"

record block_header =
  size_f :: size_t
  next_f :: addr
  free_f :: "32 word"

type_synonym memory = "addr \<Rightarrow> block_header"

record state =
  mem :: memory
  free_list :: addr

datatype fault = NullDeref

definition NULL :: addr where
  "NULL = 0"

definition HEAP_SIZE :: size_t where
  "HEAP_SIZE = 64 * 1024"

text \<open>
  \<open>sizeof(block_header_t)\<close> on the 64-bit target: 8 + 8 + 4 bytes and 4 bytes of padding.
\<close>

definition HEADER_SIZE :: size_t where
  "HEADER_SIZE = 24"

text \<open>The three field assignments \<open>p->size = v\<close>, \<open>p->next = v\<close> and \<open>p->free = v\<close>.\<close>

definition set_size :: "memory \<Rightarrow> addr \<Rightarrow> size_t \<Rightarrow> memory" where
  "set_size m p v = m(p := (m p)\<lparr>size_f := v\<rparr>)"

definition set_next :: "memory \<Rightarrow> addr \<Rightarrow> addr \<Rightarrow> memory" where
  "set_next m p v = m(p := (m p)\<lparr>next_f := v\<rparr>)"

definition set_free :: "memory \<Rightarrow> addr \<Rightarrow> 32 word \<Rightarrow> memory" where
  "set_free m p v = m(p := (m p)\<lparr>free_f := v\<rparr>)"

text \<open>
  The state of the program before any call: static storage is zeroed and
  \<open>free_list\<close> is initialised to \<open>NULL\<close>.
\<close>

definition zero_header :: block_header where
  "zero_header = \<lparr>size_f = 0, next_f = 0, free_f = 0\<rparr>"

definition boot_state :: state where
  "boot_state = \<lparr>mem = (\<lambda>_. zero_header), free_list = NULL\<rparr>"

subsection \<open>init_heap\<close>

text \<open>The parameter \<open>heap_area\<close> is the address of the static array.\<close>

definition init_heap :: "addr \<Rightarrow> state \<Rightarrow> fault + state" where
  "init_heap heap_area s =
     (let s1 = s\<lparr>free_list := heap_area\<rparr> in
      if free_list s1 = NULL then Inl NullDeref
      else
        let s2 = s1\<lparr>mem := set_size (mem s1) (free_list s1) (HEAP_SIZE - HEADER_SIZE)\<rparr>;
            s3 = s2\<lparr>mem := set_next (mem s2) (free_list s2) NULL\<rparr>;
            s4 = s3\<lparr>mem := set_free (mem s3) (free_list s3) 1\<rparr>
        in Inr s4)"

subsection \<open>malloc\<close>

text \<open>\<open>size = (size + 7) & ~7\<close>, on \<open>size_t\<close>.\<close>

definition align8 :: "size_t \<Rightarrow> size_t" where
  "align8 sz = (sz + 7) AND NOT 7"

text \<open>
  The body of \<open>if (current->free && current->size >= size)\<close>: the optional split, the
  allocation mark and the returned payload pointer. \<open>current\<close> is not null here.
\<close>

definition take_block :: "memory \<Rightarrow> addr \<Rightarrow> size_t \<Rightarrow> fault + (memory \<times> addr)" where
  "take_block m current sz =
     (if sz + HEADER_SIZE + 8 \<le> size_f (m current) then
        let new_block = current + HEADER_SIZE + sz in
        if new_block = NULL then Inl NullDeref
        else
          let m1 = set_size m new_block (size_f (m current) - sz - HEADER_SIZE);
              m2 = set_next m1 new_block (next_f (m1 current));
              m3 = set_free m2 new_block 1;
              m4 = set_size m3 current sz;
              m5 = set_next m4 current new_block;
              m6 = set_free m5 current 0
          in Inr (m6, current + HEADER_SIZE)
      else Inr (set_free m current 0, current + HEADER_SIZE))"

text \<open>
  The \<open>while (current)\<close> loop. The variable \<open>prev\<close> of the source is written and never
  read, so it is left out.
\<close>

partial_function (option) malloc_loop ::
    "memory \<Rightarrow> addr \<Rightarrow> size_t \<Rightarrow> (fault + (memory \<times> addr)) option" where
  "malloc_loop m current sz =
     (if current = NULL then Some (Inr (m, NULL))
      else if free_f (m current) \<noteq> 0 \<and> sz \<le> size_f (m current)
        then Some (take_block m current sz)
      else malloc_loop m (next_f (m current)) sz)"

declare malloc_loop.simps [code]

definition malloc :: "state \<Rightarrow> size_t \<Rightarrow> (fault + (state \<times> addr)) option" where
  "malloc s sz =
     (case malloc_loop (mem s) (free_list s) (align8 sz) of
        None \<Rightarrow> None
      | Some (Inl e) \<Rightarrow> Some (Inl e)
      | Some (Inr (m, p)) \<Rightarrow> Some (Inr (s\<lparr>mem := m\<rparr>, p)))"

subsection \<open>free\<close>

text \<open>One merge: the two assignments of lines 118 and 119, in order.\<close>

definition merge_next :: "memory \<Rightarrow> addr \<Rightarrow> memory" where
  "merge_next m current =
     (let m1 = set_size m current
                 (size_f (m current) + (HEADER_SIZE + size_f (m (next_f (m current)))));
          m2 = set_next m1 current (next_f (m1 (next_f (m1 current))))
      in m2)"

partial_function (option) coalesce :: "memory \<Rightarrow> addr \<Rightarrow> memory option" where
  "coalesce m current =
     (if current = NULL then Some m
      else if free_f (m current) \<noteq> 0 \<and> next_f (m current) \<noteq> NULL
              \<and> free_f (m (next_f (m current))) \<noteq> 0
        then coalesce (merge_next m current) current
      else coalesce m (next_f (m current)))"

declare coalesce.simps [code]

definition free :: "state \<Rightarrow> addr \<Rightarrow> (fault + state) option" where
  "free s ptr =
     (if ptr = NULL then Some (Inr s)
      else
        let block = ptr - HEADER_SIZE in
        if block = NULL then Some (Inl NullDeref)
        else
          case coalesce (set_free (mem s) block 1) (free_list s) of
            None \<Rightarrow> None
          | Some m \<Rightarrow> Some (Inr (s\<lparr>mem := m\<rparr>)))"

subsection \<open>Chains\<close>

text \<open>
  \<open>path m p ps\<close>: following \<open>next\<close> from \<open>p\<close> visits exactly the headers \<open>ps\<close>, in this
  order, and then reaches \<open>NULL\<close>. A chain with a cycle has no such list.
\<close>

fun path :: "memory \<Rightarrow> addr \<Rightarrow> addr list \<Rightarrow> bool" where
  "path m p [] = (p = NULL)"
| "path m p (q # qs) = (p \<noteq> NULL \<and> p = q \<and> path m (next_f (m p)) qs)"

text \<open>
  The two tests of the allocation loop on one header: \<open>current->free && current->size >= size\<close>
  and \<open>current->size >= size + HEADER_SIZE + 8\<close>, both on \<open>size_t\<close>.
\<close>

definition fits :: "memory \<Rightarrow> size_t \<Rightarrow> addr \<Rightarrow> bool" where
  "fits m sz p = (free_f (m p) \<noteq> 0 \<and> sz \<le> size_f (m p))"

definition splits :: "memory \<Rightarrow> size_t \<Rightarrow> addr \<Rightarrow> bool" where
  "splits m sz c = (sz + HEADER_SIZE + 8 \<le> size_f (m c))"

text \<open>
  \<open>contiguous m a ps e\<close>: the blocks \<open>ps\<close> tile the byte range from \<open>a\<close> to \<open>e\<close>: the
  first header is at \<open>a\<close>, each next header is where the block before it ends, and the
  last block ends at \<open>e\<close>. Addresses are natural numbers here, so nothing wraps.
\<close>

fun contiguous :: "memory \<Rightarrow> nat \<Rightarrow> addr list \<Rightarrow> nat \<Rightarrow> bool" where
  "contiguous m a [] e = (a = e)"
| "contiguous m a (p # ps) e =
     (unat p = a \<and> contiguous m (a + unat HEADER_SIZE + unat (size_f (m p))) ps e)"

text \<open>
  The chain invariant: the arena lies inside the address space, the chain from
  \<open>free_list\<close> is the finite list \<open>ps\<close>, and its blocks tile the arena.
\<close>

definition chain_inv :: "addr \<Rightarrow> state \<Rightarrow> addr list \<Rightarrow> bool" where
  "chain_inv heap_area s ps =
     (unat heap_area + unat HEAP_SIZE \<le> 2 ^ 64 \<and>
      path (mem s) (free_list s) ps \<and>
      contiguous (mem s) (unat heap_area) ps (unat heap_area + unat HEAP_SIZE))"

fun no_adjacent_free :: "memory \<Rightarrow> addr list \<Rightarrow> bool" where
  "no_adjacent_free m (p # q # ps) =
     (\<not> (free_f (m p) \<noteq> 0 \<and> free_f (m q) \<noteq> 0) \<and> no_adjacent_free m (q # ps))"
| "no_adjacent_free m ps = True"

text \<open>
  The states a client can reach: \<open>init_heap\<close> on an arena that fits the address space,
  then any \<open>malloc\<close>, and \<open>free\<close> of \<open>NULL\<close> or of the payload pointer of a block of the
  chain. (A \<open>free\<close> of any other pointer writes a flag into memory the allocator does not
  own as a header; the source leaves that undefined.)
\<close>

inductive reachable :: "addr \<Rightarrow> state \<Rightarrow> bool" for heap_area :: addr where
  init: "unat heap_area + unat HEAP_SIZE \<le> 2 ^ 64 \<Longrightarrow> init_heap heap_area s0 = Inr s \<Longrightarrow>
         reachable heap_area s"
| alloc: "reachable heap_area s \<Longrightarrow> malloc s sz = Some (Inr (s', p)) \<Longrightarrow>
          reachable heap_area s'"
| release: "reachable heap_area s \<Longrightarrow> path (mem s) (free_list s) ps \<Longrightarrow>
            ptr = NULL \<or> ptr - HEADER_SIZE \<in> set ps \<Longrightarrow>
            free s ptr = Some (Inr s') \<Longrightarrow> reachable heap_area s'"

text \<open>
  The bytes of the header at \<open>x\<close>, and the bytes of the block at \<open>b\<close>: its header and its
  payload. An assignment to a field of the header at \<open>x\<close> touches bytes of \<open>header_bytes x\<close>
  only.
\<close>

definition header_bytes :: "addr \<Rightarrow> nat set" where
  "header_bytes x = {unat x ..< unat x + unat HEADER_SIZE}"

definition block_bytes :: "memory \<Rightarrow> addr \<Rightarrow> nat set" where
  "block_bytes m b = {unat b ..< unat b + unat HEADER_SIZE + unat (size_f (m b))}"

subsection \<open>The two loops on an explicit chain\<close>

text \<open>
  What the coalescing loop does when the chain is the list \<open>ps\<close>: the memory and the
  chain it leaves. The recursion is on the list, so it is total; \<open>coalesce_path\<close> below
  shows that the loop of the source computes the same memory.
\<close>

fun coalesce_on :: "memory \<Rightarrow> addr list \<Rightarrow> memory \<times> addr list" where
  "coalesce_on m (c # n # rest) =
     (if free_f (m c) \<noteq> 0 \<and> free_f (m n) \<noteq> 0
      then coalesce_on (merge_next m c) (c # rest)
      else case coalesce_on m (n # rest) of (m', ps') \<Rightarrow> (m', c # ps'))"
| "coalesce_on m [] = (m, [])"
| "coalesce_on m [c] = (m, [c])"

text \<open>The chain after an allocation from block \<open>c\<close>: a split puts the new header after \<open>c\<close>.\<close>

fun insert_after :: "addr \<Rightarrow> addr \<Rightarrow> addr list \<Rightarrow> addr list" where
  "insert_after c b [] = []"
| "insert_after c b (p # ps) = (if p = c then p # b # ps else p # insert_after c b ps)"

definition chain_after :: "memory \<Rightarrow> size_t \<Rightarrow> addr \<Rightarrow> addr list \<Rightarrow> addr list" where
  "chain_after m sz c ps =
     (if splits m sz c then insert_after c (c + HEADER_SIZE + sz) ps else ps)"

subsection \<open>Concrete states\<close>

text \<open>
  With the arena at address 4096: \<open>heap0\<close> is the state after \<open>init_heap\<close>, \<open>heap1\<close> after
  a following \<open>malloc(100)\<close>, \<open>heap4\<close> after a second \<open>malloc(100)\<close>, with two allocated
  blocks and a free one behind them, and \<open>heap3\<close> after the first block is then released:
  three blocks, the middle one allocated between two free ones.
\<close>

definition heap0 :: state where
  "heap0 = \<lparr>mem = (\<lambda>_. zero_header)(4096 := \<lparr>size_f = 65512, next_f = 0, free_f = 1\<rparr>),
            free_list = 4096\<rparr>"

definition heap1 :: state where
  "heap1 = \<lparr>mem = (\<lambda>_. zero_header)
                    (4096 := \<lparr>size_f = 104, next_f = 4224, free_f = 0\<rparr>,
                     4224 := \<lparr>size_f = 65384, next_f = 0, free_f = 1\<rparr>),
            free_list = 4096\<rparr>"

definition heap3 :: state where
  "heap3 = \<lparr>mem = (\<lambda>_. zero_header)
                    (4096 := \<lparr>size_f = 104, next_f = 4224, free_f = 1\<rparr>,
                     4224 := \<lparr>size_f = 104, next_f = 4352, free_f = 0\<rparr>,
                     4352 := \<lparr>size_f = 65256, next_f = 0, free_f = 1\<rparr>),
            free_list = 4096\<rparr>"

definition heap4 :: state where
  "heap4 = \<lparr>mem = (\<lambda>_. zero_header)
                    (4096 := \<lparr>size_f = 104, next_f = 4224, free_f = 0\<rparr>,
                     4224 := \<lparr>size_f = 104, next_f = 4352, free_f = 0\<rparr>,
                     4352 := \<lparr>size_f = 65256, next_f = 0, free_f = 1\<rparr>),
            free_list = 4096\<rparr>"

section \<open>Lemmas\<close>

subsection \<open>Paths\<close>

lemma path_NULL [simp]: "path m NULL ps = (ps = [])"
  by (cases ps) auto

lemma path_functional: "path m p ps \<Longrightarrow> path m p qs \<Longrightarrow> ps = qs"
proof (induction ps arbitrary: p qs)
  case Nil
  then show ?case by simp
next
  case (Cons a ps)
  then show ?case by (cases qs) auto
qed

lemma path_append: "path m p (as @ b # bs) \<Longrightarrow> path m b (b # bs)"
  by (induction as arbitrary: p) auto

lemma path_head_notin_tail: "path m p (p # ps) \<Longrightarrow> p \<notin> set ps"
proof
  assume p: "path m p (p # ps)" and "p \<in> set ps"
  then obtain as bs where "ps = as @ p # bs" by (auto simp: in_set_conv_decomp)
  with p have "path m p (p # bs)" using path_append [of m p "p # as" p bs] by simp
  with p have "p # ps = p # bs" by (rule path_functional)
  with \<open>ps = as @ p # bs\<close> show False by simp
qed

lemma path_distinct: "path m p ps \<Longrightarrow> distinct ps"
proof (induction ps arbitrary: p)
  case Nil
  then show ?case by simp
next
  case (Cons a ps)
  from Cons.prems have pa: "path m a (a # ps)" and tl: "path m (next_f (m a)) ps" by auto
  from pa have "a \<notin> set ps" by (rule path_head_notin_tail)
  moreover from tl have "distinct ps" by (rule Cons.IH)
  ultimately show ?case by simp
qed

lemma path_NULL_notin: "path m p ps \<Longrightarrow> NULL \<notin> set ps"
  by (induction ps arbitrary: p) auto

lemma path_cong_next:
  "(\<And>q. q \<in> set ps \<Longrightarrow> next_f (m' q) = next_f (m q)) \<Longrightarrow> path m' p ps = path m p ps"
  by (induction ps arbitrary: p) auto

subsection \<open>The allocation loop follows the chain\<close>

lemma malloc_loop_path:
  "path m p ps \<Longrightarrow>
   malloc_loop m p sz =
     (case find (fits m sz) ps of
        None \<Rightarrow> Some (Inr (m, NULL))
      | Some c \<Rightarrow> Some (take_block m c sz))"
proof (induction ps arbitrary: p)
  case Nil
  then show ?case by (subst malloc_loop.simps) simp
next
  case (Cons a ps)
  from Cons.prems have a: "p = a" "a \<noteq> NULL" and tl: "path m (next_f (m a)) ps" by auto
  have f: "fits m sz a = (free_f (m a) \<noteq> 0 \<and> sz \<le> size_f (m a))"
    by (simp add: fits_def)
  show ?case
    unfolding a
    by (subst malloc_loop.simps) (simp add: f [symmetric] a Cons.IH [OF tl])
qed

lemma malloc_path:
  "path (mem s) (free_list s) ps \<Longrightarrow>
   malloc s sz =
     (case find (fits (mem s) (align8 sz)) ps of
        None \<Rightarrow> Some (Inr (s, NULL))
      | Some c \<Rightarrow>
          (case take_block (mem s) c (align8 sz) of
             Inl e \<Rightarrow> Some (Inl e)
           | Inr (m, p) \<Rightarrow> Some (Inr (s\<lparr>mem := m\<rparr>, p))))"
  by (simp add: malloc_def malloc_loop_path split: option.splits)

lemma find_first:
  "\<forall>q\<in>set pre. \<not> P q \<Longrightarrow> P c \<Longrightarrow> find P (pre @ c # post) = Some c"
  by (induction pre) auto

lemma find_none: "\<forall>q\<in>set ps. \<not> P q \<Longrightarrow> find P ps = None"
  by (induction ps) auto

lemma take_block_nosplit:
  "\<not> splits m sz c \<Longrightarrow> take_block m c sz = Inr (set_free m c 0, c + HEADER_SIZE)"
  by (simp add: take_block_def splits_def)

lemma take_block_split:
  assumes "splits m sz c" "c + HEADER_SIZE + sz \<noteq> NULL" "c + HEADER_SIZE + sz \<noteq> c"
  shows "take_block m c sz =
     Inr (m(c + HEADER_SIZE + sz :=
              (m (c + HEADER_SIZE + sz))\<lparr>size_f := size_f (m c) - sz - HEADER_SIZE,
                                           next_f := next_f (m c), free_f := 1\<rparr>,
            c := (m c)\<lparr>size_f := sz, next_f := c + HEADER_SIZE + sz, free_f := 0\<rparr>),
          c + HEADER_SIZE)"
  using assms
  by (simp add: take_block_def splits_def Let_def set_size_def set_next_def set_free_def
      fun_upd_twist)

lemma take_block_returns:
  "c + HEADER_SIZE + sz \<noteq> NULL \<Longrightarrow>
   \<exists>m'. take_block m c sz = Inr (m', c + HEADER_SIZE) \<and> free_f (m' c) = 0"
  unfolding take_block_def Let_def by (simp add: set_free_def)

subsection \<open>The coalescing loop follows the chain\<close>

lemma merge_next_eq:
  "merge_next m c =
     m(c := (m c)\<lparr>size_f := size_f (m c) + (HEADER_SIZE + size_f (m (next_f (m c)))),
                  next_f := next_f ((set_size m c (size_f (m c) + (HEADER_SIZE + size_f (m (next_f (m c))))))
                                     (next_f (m c)))\<rparr>)"
  by (simp add: merge_next_def set_size_def set_next_def Let_def fun_eq_iff)

lemma merge_next_other [simp]: "a \<noteq> c \<Longrightarrow> merge_next m c a = m a"
  by (simp add: merge_next_eq)

lemma merge_next_free [simp]: "free_f (merge_next m c a) = free_f (m a)"
  by (simp add: merge_next_eq)

lemma merge_next_same:
  "next_f (m c) \<noteq> c \<Longrightarrow>
   merge_next m c c = (m c)\<lparr>size_f := size_f (m c) + (HEADER_SIZE + size_f (m (next_f (m c)))),
                             next_f := next_f (m (next_f (m c)))\<rparr>"
  by (simp add: merge_next_eq set_size_def)

lemma coalesce_on_frame: "a \<notin> set ps \<Longrightarrow> fst (coalesce_on m ps) a = m a"
  by (induction m ps rule: coalesce_on.induct) (auto split: prod.splits)

lemma coalesce_on_free: "free_f (fst (coalesce_on m ps) a) = free_f (m a)"
  by (induction m ps rule: coalesce_on.induct) (auto split: prod.splits)

lemma coalesce_on_live: "free_f (m a) = 0 \<Longrightarrow> fst (coalesce_on m ps) a = m a"
proof (induction m ps rule: coalesce_on.induct)
  case (1 m c n rest)
  then show ?case by (cases "a = c") (auto split: prod.splits)
qed auto

lemma coalesce_on_hd: "ps \<noteq> [] \<Longrightarrow> snd (coalesce_on m ps) \<noteq> [] \<and> hd (snd (coalesce_on m ps)) = hd ps"
  by (induction m ps rule: coalesce_on.induct) (auto split: prod.splits)

lemma coalesce_on_Nil [simp]: "snd (coalesce_on m ps) = [] \<longleftrightarrow> ps = []"
  using coalesce_on_hd [of ps m] by (cases ps) auto

lemma coalesce_on_set: "set (snd (coalesce_on m ps)) \<subseteq> set ps"
  by (induction m ps rule: coalesce_on.induct) (auto split: prod.splits)

lemma coalesce_on_subseq: "subseq (snd (coalesce_on m ps)) ps"
proof (induction m ps rule: coalesce_on.induct)
  case (1 m c n rest)
  show ?case
  proof (cases "free_f (m c) \<noteq> 0 \<and> free_f (m n) \<noteq> 0")
    case True
    from 1(1) [OF True] have "subseq (snd (coalesce_on (merge_next m c) (c # rest))) (c # rest)" .
    moreover have "subseq (c # rest) (c # n # rest)"
      by (intro subseq_Cons2 list_emb_Cons) simp
    ultimately have "subseq (snd (coalesce_on (merge_next m c) (c # rest))) (c # n # rest)"
      by (rule subseq_order.trans)
    with True show ?thesis by simp
  next
    case False
    with 1(2) [OF False] show ?thesis by (auto split: prod.splits)
  qed
qed simp_all

lemma coalesce_on_naf: "no_adjacent_free (fst (coalesce_on m ps)) (snd (coalesce_on m ps))"
proof (induction m ps rule: coalesce_on.induct)
  case (1 m c n rest)
  show ?case
  proof (cases "free_f (m c) \<noteq> 0 \<and> free_f (m n) \<noteq> 0")
    case True
    with 1 show ?thesis by simp
  next
    case False
    obtain m' ps' where r: "coalesce_on m (n # rest) = (m', ps')" by fastforce
    from coalesce_on_hd [of "n # rest" m] r obtain qs where ps': "ps' = n # qs"
      by (cases ps') auto
    from 1(2) [OF False] r have "no_adjacent_free m' ps'" by simp
    moreover have "free_f (m' c) = free_f (m c)" "free_f (m' n) = free_f (m n)"
      using coalesce_on_free [of m "n # rest"] r by auto
    ultimately show ?thesis using False r ps' by auto
  qed
qed auto

lemma coalesce_path:
  "path m p ps \<Longrightarrow>
   coalesce m p = Some (fst (coalesce_on m ps)) \<and>
   path (fst (coalesce_on m ps)) p (snd (coalesce_on m ps))"
proof (induction m ps arbitrary: p rule: coalesce_on.induct)
  case (1 m c n rest)
  from "1.prems" have p: "p = c" "c \<noteq> NULL" "next_f (m c) = n" "n \<noteq> NULL"
    and tl: "path m (next_f (m n)) rest" by auto
  from "1.prems" have d: "distinct (c # n # rest)" by (rule path_distinct)
  show ?case
  proof (cases "free_f (m c) \<noteq> 0 \<and> free_f (m n) \<noteq> 0")
    case True
    from d p have same: "merge_next m c c = (m c)\<lparr>size_f := size_f (m c) + (HEADER_SIZE + size_f (m n)),
                             next_f := next_f (m n)\<rparr>"
      using merge_next_same [of m c] by auto
    have "\<And>q. q \<in> set rest \<Longrightarrow> q \<noteq> c" using d by auto
    then have "path (merge_next m c) (next_f (m n)) rest = path m (next_f (m n)) rest"
      by (intro path_cong_next) simp
    with tl same p have "path (merge_next m c) c (c # rest)" by simp
    from "1.IH"(1) [OF True this] True p show ?thesis
      by (subst coalesce.simps) simp
  next
    case False
    from "1.prems" p have "path m n (n # rest)" by simp
    from "1.IH"(2) [OF False this] obtain m' ps' where
      r: "coalesce_on m (n # rest) = (m', ps')" and c: "coalesce m n = Some m'"
      and pa: "path m' n ps'"
      by (cases "coalesce_on m (n # rest)") auto
    have "m' c = m c" using coalesce_on_frame [of c "n # rest" m] d r by simp
    with pa p have "path m' c (c # ps')" by simp
    with False p r c show ?thesis
      by (subst coalesce.simps) auto
  qed
next
  case (2 m)
  then show ?case by (subst coalesce.simps) simp
next
  case (3 m v)
  then show ?case
    by (subst coalesce.simps, simp, subst coalesce.simps, simp)
qed

lemma free_path:
  assumes pa: "path (mem s) (free_list s) ps" and ptr: "ptr \<noteq> NULL" "ptr - HEADER_SIZE \<noteq> NULL"
  shows "free s ptr =
           Some (Inr (s\<lparr>mem := fst (coalesce_on (set_free (mem s) (ptr - HEADER_SIZE) 1) ps)\<rparr>))"
    and "path (set_free (mem s) (ptr - HEADER_SIZE) 1) (free_list s) ps"
proof -
  have "path (set_free (mem s) (ptr - HEADER_SIZE) 1) (free_list s) ps = path (mem s) (free_list s) ps"
    by (intro path_cong_next) (simp add: set_free_def)
  with pa show 1: "path (set_free (mem s) (ptr - HEADER_SIZE) 1) (free_list s) ps" by simp
  from coalesce_path [OF 1] ptr show "free s ptr =
           Some (Inr (s\<lparr>mem := fst (coalesce_on (set_free (mem s) (ptr - HEADER_SIZE) 1) ps)\<rparr>))"
    by (simp add: free_def Let_def)
qed

subsection \<open>Blocks that tile the arena\<close>

lemma unat_HEADER_SIZE [simp]: "unat HEADER_SIZE = 24"
  by (simp add: HEADER_SIZE_def)

lemma unat_HEAP_SIZE [simp]: "unat HEAP_SIZE = 65536"
  by (simp add: HEAP_SIZE_def)

lemma contiguous_le: "contiguous m a ps e \<Longrightarrow> a \<le> e"
  by (induction ps arbitrary: a) fastforce+

lemma contiguous_sum:
  "contiguous m a ps e \<Longrightarrow> a + (\<Sum>p\<leftarrow>ps. unat HEADER_SIZE + unat (size_f (m p))) = e"
  by (induction ps arbitrary: a) fastforce+

lemma contiguous_cong:
  "(\<And>q. q \<in> set ps \<Longrightarrow> size_f (m' q) = size_f (m q)) \<Longrightarrow>
   contiguous m' a ps e = contiguous m a ps e"
  by (induction ps arbitrary: a) auto

lemma contiguous_bounds:
  "contiguous m a ps e \<Longrightarrow> q \<in> set ps \<Longrightarrow>
   a \<le> unat q \<and> unat q + 24 + unat (size_f (m q)) \<le> e"
proof (induction ps arbitrary: a)
  case Nil
  then show ?case by simp
next
  case (Cons p ps)
  from Cons.prems(1) have hd: "unat p = a"
    and tl: "contiguous m (a + 24 + unat (size_f (m p))) ps e" by auto
  show ?case
  proof (cases "q = p")
    case True
    with hd contiguous_le [OF tl] show ?thesis by simp
  next
    case False
    with Cons.prems(2) have "q \<in> set ps" by simp
    from Cons.IH [OF tl this] show ?thesis by simp
  qed
qed

lemma contiguous_tail_gt:
  "contiguous m a (p # ps) e \<Longrightarrow> q \<in> set ps \<Longrightarrow> unat p + 24 + unat (size_f (m p)) \<le> unat q"
  using contiguous_bounds [of m "a + 24 + unat (size_f (m p))" ps e q] by simp

lemma contiguous_sorted: "contiguous m a ps e \<Longrightarrow> sorted_wrt (<) ps"
proof (induction ps arbitrary: a)
  case Nil
  then show ?case by simp
next
  case (Cons p ps)
  from Cons.prems have tl: "contiguous m (a + 24 + unat (size_f (m p))) ps e" by simp
  have "\<And>q. q \<in> set ps \<Longrightarrow> p < q"
    using contiguous_tail_gt [OF Cons.prems] by (fastforce simp: word_less_nat_alt)
  with Cons.IH [OF tl] show ?case by simp
qed

lemma contiguous_disjoint:
  "contiguous m a ps e \<Longrightarrow> q \<in> set ps \<Longrightarrow> c \<in> set ps \<Longrightarrow> q \<noteq> c \<Longrightarrow>
   unat q + 24 + unat (size_f (m q)) \<le> unat c \<or> unat c + 24 + unat (size_f (m c)) \<le> unat q"
proof (induction ps arbitrary: a)
  case Nil
  then show ?case by simp
next
  case (Cons p ps)
  from Cons.prems(1) have tl: "contiguous m (a + 24 + unat (size_f (m p))) ps e" by simp
  consider "q = p" "c \<in> set ps" | "c = p" "q \<in> set ps" | "q \<in> set ps" "c \<in> set ps"
    using Cons.prems by auto
  then show ?case
  proof cases
    case 1
    with contiguous_tail_gt [OF Cons.prems(1), of c] show ?thesis by simp
  next
    case 2
    with contiguous_tail_gt [OF Cons.prems(1), of q] show ?thesis by simp
  next
    case 3
    with Cons.IH [OF tl] Cons.prems(4) show ?thesis by simp
  qed
qed

lemma blocks_disjoint:
  assumes "contiguous m a ps e" "x \<in> set ps" "b \<in> set ps" "x \<noteq> b"
  shows "block_bytes m x \<inter> block_bytes m b = {}"
  using contiguous_disjoint [OF assms] by (auto simp: block_bytes_def)

lemma header_in_block: "header_bytes x \<subseteq> block_bytes m x"
  by (auto simp: header_bytes_def block_bytes_def)

lemma header_nonempty: "unat x \<in> header_bytes x"
  by (simp add: header_bytes_def HEADER_SIZE_def)

subsection \<open>A merge keeps the tiling\<close>

lemma coalesce_on_contiguous:
  "path m p ps \<Longrightarrow> contiguous m a ps e \<Longrightarrow> e \<le> 2 ^ 64 \<Longrightarrow>
   contiguous (fst (coalesce_on m ps)) a (snd (coalesce_on m ps)) e"
proof (induction m ps arbitrary: p a rule: coalesce_on.induct)
  case (1 m c n rest)
  from "1.prems"(1) have p: "p = c" "c \<noteq> NULL" "next_f (m c) = n" "n \<noteq> NULL"
    and tl: "path m (next_f (m n)) rest" by auto
  from "1.prems"(1) have d: "distinct (c # n # rest)" by (rule path_distinct)
  from "1.prems"(2) have c: "unat c = a" "unat n = a + 24 + unat (size_f (m c))"
    and ct: "contiguous m (a + 24 + unat (size_f (m c)) + 24 + unat (size_f (m n))) rest e"
    by auto
  show ?case
  proof (cases "free_f (m c) \<noteq> 0 \<and> free_f (m n) \<noteq> 0")
    case True
    from d p have same: "merge_next m c c = (m c)\<lparr>size_f := size_f (m c) + (HEADER_SIZE + size_f (m n)),
                             next_f := next_f (m n)\<rparr>"
      using merge_next_same [of m c] by auto
    have ne: "\<And>q. q \<in> set rest \<Longrightarrow> q \<noteq> c" using d by auto
    then have "path (merge_next m c) (next_f (m n)) rest = path m (next_f (m n)) rest"
      by (intro path_cong_next) simp
    with tl same p have pa: "path (merge_next m c) c (c # rest)" by simp
    from contiguous_le [OF ct] "1.prems"(3)
    have "unat (size_f (m c)) + (24 + unat (size_f (m n))) < 2 ^ 64" by simp
    then have sz: "unat (size_f (m c) + (HEADER_SIZE + size_f (m n)))
                 = unat (size_f (m c)) + 24 + unat (size_f (m n))"
      by (simp add: unat_word_ariths HEADER_SIZE_def)
    have "contiguous (merge_next m c) (a + 24 + unat (size_f (m c)) + 24 + unat (size_f (m n))) rest e
        = contiguous m (a + 24 + unat (size_f (m c)) + 24 + unat (size_f (m n))) rest e"
      using ne by (intro contiguous_cong) simp
    with ct c same sz have "contiguous (merge_next m c) a (c # rest) e"
      by (simp add: add.assoc)
    from "1.IH"(1) [OF True pa this "1.prems"(3)] True show ?thesis by simp
  next
    case False
    from "1.prems"(1) p have pa: "path m n (n # rest)" by simp
    from "1.prems"(2) c have cn: "contiguous m (a + 24 + unat (size_f (m c))) (n # rest) e" by simp
    obtain m' ps' where r: "coalesce_on m (n # rest) = (m', ps')" by fastforce
    have "m' c = m c" using coalesce_on_frame [of c "n # rest" m] d r by simp
    with "1.IH"(2) [OF False pa cn "1.prems"(3)] r False c show ?thesis by auto
  qed
qed auto

subsection \<open>A split keeps the tiling\<close>

text \<open>Word arithmetic inside the arena: nothing wraps.\<close>

lemma split_arith:
  fixes c sz sc :: "64 word"
  assumes fit: "sz \<le> sc" and small: "unat sc \<le> 65512"
    and top: "unat c + 24 + unat sc \<le> 2 ^ 64"
    and sp: "sz + 24 + 8 \<le> sc"
  shows "unat (c + 24 + sz) = unat c + 24 + unat sz"
    and "unat sz + 32 \<le> unat sc"
    and "unat (sc - sz - 24) = unat sc - unat sz - 24"
proof -
  from fit small have s: "unat sz \<le> 65512" by (simp add: word_le_nat_alt)
  then have "unat (sz + 24 + 8) = unat sz + 32"
    by (simp add: unat_word_ariths)
  with sp show 2: "unat sz + 32 \<le> unat sc" by (simp add: word_le_nat_alt)
  with top have "unat c + 24 + unat sz < 2 ^ 64" by simp
  then show "unat (c + 24 + sz) = unat c + 24 + unat sz"
    by (simp add: unat_word_ariths)
  from fit have "unat (sc - sz) = unat sc - unat sz" by (simp add: unat_sub)
  moreover have "24 \<le> sc - sz" using 2 fit by (simp add: word_le_nat_alt unat_sub)
  ultimately show "unat (sc - sz - 24) = unat sc - unat sz - 24"
    by (simp add: unat_sub)
qed

lemma split_inside:
  assumes co: "contiguous m a ps e"
    and top: "e \<le> 2 ^ 64" and ar: "e \<le> a + 65536"
    and c: "c \<in> set ps" and fit: "fits m sz c" and sp: "splits m sz c"
  shows "unat (c + HEADER_SIZE + sz) = unat c + 24 + unat sz"
    and "unat sz + 32 \<le> unat (size_f (m c))"
proof -
  from contiguous_bounds [OF co c] have b: "a \<le> unat c" "unat c + 24 + unat (size_f (m c)) \<le> e"
    by auto
  with ar have small: "unat (size_f (m c)) \<le> 65512" by simp
  from b top have t: "unat c + 24 + unat (size_f (m c)) \<le> 2 ^ 64" by simp
  from fit have f: "sz \<le> size_f (m c)" by (simp add: fits_def)
  from sp have sp': "sz + 24 + 8 \<le> size_f (m c)" by (simp add: splits_def HEADER_SIZE_def)
  from split_arith [OF f small t sp']
  show "unat (c + HEADER_SIZE + sz) = unat c + 24 + unat sz"
    and "unat sz + 32 \<le> unat (size_f (m c))"
    by (simp_all add: HEADER_SIZE_def)
qed

lemma split_chain:
  fixes m :: memory
  assumes nb: "nb \<noteq> NULL" "nb \<noteq> c" "nb \<notin> set ps"
    and un: "unat nb = unat c + 24 + unat sz" "unat sz + 24 + unat r = unat (size_f (m c))"
    and m': "m' = m(nb := (m nb)\<lparr>size_f := r, next_f := next_f (m c), free_f := f1\<rparr>,
                    c := (m c)\<lparr>size_f := sz, next_f := nb, free_f := f0\<rparr>)"
  shows "path m p ps \<Longrightarrow> contiguous m a ps e \<Longrightarrow> c \<in> set ps \<Longrightarrow>
         path m' p (insert_after c nb ps) \<and> contiguous m' a (insert_after c nb ps) e"
  using nb(3)
proof (induction ps arbitrary: p a)
  case Nil
  then show ?case by simp
next
  case (Cons q qs)
  from Cons.prems(1) have p: "p = q" "q \<noteq> NULL" and tl: "path m (next_f (m q)) qs" by auto
  from Cons.prems(1) p have "path m q (q # qs)" by simp
  then have d: "q \<notin> set qs" by (rule path_head_notin_tail)
  from Cons.prems(2) have a: "unat q = a"
    and ct: "contiguous m (a + 24 + unat (size_f (m q))) qs e" by auto
  from Cons.prems(4) have nq: "nb \<noteq> q" "nb \<notin> set qs" by auto
  show ?case
  proof (cases "q = c")
    case True
    have ne: "\<And>x. x \<in> set qs \<Longrightarrow> x \<noteq> c \<and> x \<noteq> nb" using d nq True by auto
    then have "path m' (next_f (m c)) qs = path m (next_f (m c)) qs"
      unfolding m' by (intro path_cong_next) simp
    with tl True have 1: "path m' (next_f (m c)) qs" by simp
    have "contiguous m' (a + 24 + unat (size_f (m c))) qs e
        = contiguous m (a + 24 + unat (size_f (m c))) qs e"
      unfolding m' using ne by (intro contiguous_cong) simp
    with ct True have 2: "contiguous m' (a + 24 + unat (size_f (m c))) qs e" by simp
    have mc: "size_f (m' c) = sz" "next_f (m' c) = nb"
      and mnb: "size_f (m' nb) = r" "next_f (m' nb) = next_f (m c)"
      using nb(2) by (simp_all add: m')
    have "a + 24 + unat (size_f (m c)) = unat nb + 24 + unat r"
      using un a True by simp
    with 2 have 3: "contiguous m' (unat nb + 24 + unat r) qs e" by (simp only:)
    have "path m' c (c # nb # qs)"
      using 1 True p nb(1) mc mnb by simp
    moreover have "contiguous m' a (c # nb # qs) e"
      using 3 a True un(1) mc mnb by simp
    ultimately show ?thesis using True p by (simp del: path.simps contiguous.simps)
  next
    case False
    with Cons.prems(3) have "c \<in> set qs" by simp
    from Cons.IH [OF tl ct this nq(2)]
    have "path m' (next_f (m q)) (insert_after c nb qs)"
      "contiguous m' (a + 24 + unat (size_f (m q))) (insert_after c nb qs) e" by auto
    moreover have "m' q = m q" using False nq(1) by (simp add: m')
    ultimately show ?thesis using False p a by simp
  qed
qed

lemma take_block_inv:
  assumes pa: "path m p ps" and co: "contiguous m a ps e"
    and top: "e \<le> 2 ^ 64" and ar: "e \<le> a + 65536"
    and c: "c \<in> set ps" and fit: "fits m sz c"
  shows "\<exists>m'. take_block m c sz = Inr (m', c + HEADER_SIZE) \<and>
           path m' p (chain_after m sz c ps) \<and>
           contiguous m' a (chain_after m sz c ps) e \<and>
           (\<forall>x. x \<noteq> c \<longrightarrow> x \<noteq> c + HEADER_SIZE + sz \<longrightarrow> m' x = m x)"
proof (cases "splits m sz c")
  case False
  have "path (set_free m c 0) p ps = path m p ps"
    by (intro path_cong_next) (simp add: set_free_def)
  moreover have "contiguous (set_free m c 0) a ps e = contiguous m a ps e"
    by (intro contiguous_cong) (simp add: set_free_def)
  ultimately show ?thesis using False pa co
    by (simp add: take_block_nosplit chain_after_def) (simp add: set_free_def)
next
  case True
  define nb where "nb = c + HEADER_SIZE + sz"
  from contiguous_bounds [OF co c] have b: "a \<le> unat c" "unat c + 24 + unat (size_f (m c)) \<le> e"
    by auto
  with ar have small: "unat (size_f (m c)) \<le> 65512" by simp
  from b top have t: "unat c + 24 + unat (size_f (m c)) \<le> 2 ^ 64" by simp
  from fit have f: "sz \<le> size_f (m c)" by (simp add: fits_def)
  from True have sp: "sz + 24 + 8 \<le> size_f (m c)" by (simp add: splits_def HEADER_SIZE_def)
  note ar = split_arith [OF f small t sp]
  have un: "unat nb = unat c + 24 + unat sz" using ar(1) by (simp add: nb_def HEADER_SIZE_def)
  have r: "unat sz + 24 + unat (size_f (m c) - sz - HEADER_SIZE) = unat (size_f (m c))"
    using ar(2,3) by (simp add: HEADER_SIZE_def)
  have n1: "nb \<noteq> NULL" using un by (auto simp: NULL_def)
  have n2: "nb \<noteq> c" using un by auto
  have n3: "nb \<notin> set ps"
  proof
    assume "nb \<in> set ps"
    from contiguous_disjoint [OF co this c n2] contiguous_bounds [OF co this] un ar(2)
    show False by auto
  qed
  let ?m' = "m(nb := (m nb)\<lparr>size_f := size_f (m c) - sz - HEADER_SIZE,
                                           next_f := next_f (m c), free_f := 1\<rparr>,
            c := (m c)\<lparr>size_f := sz, next_f := nb, free_f := 0\<rparr>)"
  have tb: "take_block m c sz = Inr (?m', c + HEADER_SIZE)"
    using take_block_split [OF True] n1 n2 by (simp add: nb_def)
  from split_chain [OF n1 n2 n3 un r refl pa co c] tb True show ?thesis
    by (auto simp: chain_after_def nb_def)
qed

lemma insert_after_decomp:
  "c \<in> set ps \<Longrightarrow> \<exists>pre post. ps = pre @ c # post \<and> insert_after c b ps = pre @ c # b # post"
proof (induction ps)
  case Nil
  then show ?case by simp
next
  case (Cons q qs)
  show ?case
  proof (cases "q = c")
    case True
    then have "q # qs = [] @ c # qs \<and> insert_after c b (q # qs) = [] @ c # b # qs" by simp
    then show ?thesis by blast
  next
    case False
    with Cons obtain pre post where "qs = pre @ c # post"
      "insert_after c b qs = pre @ c # b # post" by auto
    with False have "q # qs = (q # pre) @ c # post \<and>
        insert_after c b (q # qs) = (q # pre) @ c # b # post" by simp
    then show ?thesis by blast
  qed
qed

subsection \<open>The invariant holds in every reachable state\<close>

lemma init_heap_inv:
  assumes "unat heap_area + unat HEAP_SIZE \<le> 2 ^ 64" "init_heap heap_area s0 = Inr s"
  shows "chain_inv heap_area s [heap_area]"
proof -
  from assms(2) have n: "heap_area \<noteq> NULL"
    by (auto simp: init_heap_def Let_def split: if_splits)
  have "unat (HEAP_SIZE - HEADER_SIZE) = 65512"
    by (simp add: HEAP_SIZE_def HEADER_SIZE_def)
  with assms n show ?thesis
    by (auto simp: chain_inv_def init_heap_def Let_def set_size_def set_next_def set_free_def)
qed

lemma malloc_chain:
  assumes inv: "chain_inv heap_area s ps" and ma: "malloc s sz = Some (Inr (s', p))"
  shows "chain_inv heap_area s' ps \<or>
         (\<exists>pre post. ps = pre @ (p - HEADER_SIZE) # post \<and>
            chain_inv heap_area s' (pre @ (p - HEADER_SIZE) # (p + align8 sz) # post))"
proof (cases "find (fits (mem s) (align8 sz)) ps")
  case None
  from inv have "path (mem s) (free_list s) ps" by (simp add: chain_inv_def)
  from malloc_path [OF this, of sz] None ma have "s' = s" by simp
  with inv show ?thesis by auto
next
  case (Some c)
  then have c: "c \<in> set ps" "fits (mem s) (align8 sz) c"
    by (auto simp: find_Some_iff)
  from inv have pa: "path (mem s) (free_list s) ps"
    and co: "contiguous (mem s) (unat heap_area) ps (unat heap_area + unat HEAP_SIZE)"
    and top: "unat heap_area + unat HEAP_SIZE \<le> 2 ^ 64"
    by (auto simp: chain_inv_def)
  have ar: "unat heap_area + unat HEAP_SIZE \<le> unat heap_area + 65536" by simp
  from take_block_inv [OF pa co top ar c] obtain m' where
    tb: "take_block (mem s) c (align8 sz) = Inr (m', c + HEADER_SIZE)"
    and pa': "path m' (free_list s) (chain_after (mem s) (align8 sz) c ps)"
    and co': "contiguous m' (unat heap_area) (chain_after (mem s) (align8 sz) c ps)
                (unat heap_area + unat HEAP_SIZE)"
    by blast
  from ma pa Some tb have s': "s' = s\<lparr>mem := m'\<rparr>" and p: "p = c + HEADER_SIZE"
    by (auto simp: malloc_path)
  from pa' co' top have inv: "chain_inv heap_area s' (chain_after (mem s) (align8 sz) c ps)"
    by (simp add: chain_inv_def s')
  show ?thesis
  proof (cases "splits (mem s) (align8 sz) c")
    case False
    with inv show ?thesis by (simp add: chain_after_def)
  next
    case True
    from insert_after_decomp [OF c(1), of "c + HEADER_SIZE + align8 sz"] obtain pre post where
      "ps = pre @ c # post"
      "insert_after c (c + HEADER_SIZE + align8 sz) ps = pre @ c # (c + HEADER_SIZE + align8 sz) # post"
      by blast
    with inv True p have "ps = pre @ (p - HEADER_SIZE) # post \<and>
            chain_inv heap_area s' (pre @ (p - HEADER_SIZE) # (p + align8 sz) # post)"
      by (simp add: chain_after_def)
    then show ?thesis by blast
  qed
qed

lemma free_chain:
  assumes inv: "chain_inv heap_area s ps" and ptr: "ptr = NULL \<or> ptr - HEADER_SIZE \<in> set ps"
    and fr: "free s ptr = Some (Inr s')"
  shows "\<exists>ps'. chain_inv heap_area s' ps' \<and> subseq ps' ps"
proof (cases "ptr = NULL")
  case True
  with fr have "s' = s" by (simp add: free_def)
  with inv show ?thesis by auto
next
  case False
  from inv have pa: "path (mem s) (free_list s) ps"
    and co: "contiguous (mem s) (unat heap_area) ps (unat heap_area + unat HEAP_SIZE)"
    and top: "unat heap_area + unat HEAP_SIZE \<le> 2 ^ 64"
    by (auto simp: chain_inv_def)
  from False ptr have b: "ptr - HEADER_SIZE \<in> set ps" by simp
  with path_NULL_notin [OF pa] have nn: "ptr - HEADER_SIZE \<noteq> NULL" by auto
  let ?m1 = "set_free (mem s) (ptr - HEADER_SIZE) 1"
  note fp = free_path [OF pa False nn]
  have "contiguous ?m1 (unat heap_area) ps (unat heap_area + unat HEAP_SIZE)
      = contiguous (mem s) (unat heap_area) ps (unat heap_area + unat HEAP_SIZE)"
    by (intro contiguous_cong) (simp add: set_free_def)
  with co have co1: "contiguous ?m1 (unat heap_area) ps (unat heap_area + unat HEAP_SIZE)"
    by simp
  from fr fp(1) have s': "s' = s\<lparr>mem := fst (coalesce_on ?m1 ps)\<rparr>" by simp
  from coalesce_path [OF fp(2)] coalesce_on_contiguous [OF fp(2) co1 top] top
  have "chain_inv heap_area s' (snd (coalesce_on ?m1 ps))"
    by (simp add: chain_inv_def s')
  with coalesce_on_subseq [of ?m1 ps] show ?thesis by blast
qed

lemma reachable_inv: "reachable heap_area s \<Longrightarrow> \<exists>ps. chain_inv heap_area s ps"
proof (induction rule: reachable.induct)
  case (init s0 s)
  then show ?case using init_heap_inv by blast
next
  case (alloc s sz s' p)
  then show ?case using malloc_chain by blast
next
  case (release s ps ptr s')
  from release.IH obtain qs where w: "chain_inv heap_area s qs" ..
  with release.hyps(2) have "qs = ps" by (auto simp: chain_inv_def dest: path_functional)
  with w release.hyps(3,4) show ?case using free_chain by blast
qed

subsection \<open>The result of an allocation and of a release under the invariant\<close>

lemma chain_block_small:
  assumes inv: "chain_inv heap_area s ps" and c: "c \<in> set ps"
  shows "unat (size_f (mem s c)) \<le> 65512"
proof -
  from inv have co: "contiguous (mem s) (unat heap_area) ps (unat heap_area + unat HEAP_SIZE)"
    by (simp add: chain_inv_def)
  from contiguous_bounds [OF co c] show ?thesis by simp
qed

lemma malloc_result:
  assumes inv: "chain_inv heap_area s (pre @ c # post)"
    and pre: "\<forall>q\<in>set pre. \<not> fits (mem s) (align8 sz) q"
    and fit: "fits (mem s) (align8 sz) c"
  shows "malloc s sz =
     Some (Inr (s\<lparr>mem :=
                   if splits (mem s) (align8 sz) c
                   then (mem s)
                     (c + HEADER_SIZE + align8 sz :=
                        (mem s (c + HEADER_SIZE + align8 sz))
                          \<lparr>size_f := size_f (mem s c) - align8 sz - HEADER_SIZE,
                           next_f := next_f (mem s c), free_f := 1\<rparr>,
                      c := (mem s c)\<lparr>size_f := align8 sz,
                                     next_f := c + HEADER_SIZE + align8 sz, free_f := 0\<rparr>)
                   else (mem s)(c := (mem s c)\<lparr>free_f := 0\<rparr>)\<rparr>,
                c + HEADER_SIZE))"
proof -
  from inv have pa: "path (mem s) (free_list s) (pre @ c # post)"
    and co: "contiguous (mem s) (unat heap_area) (pre @ c # post)
               (unat heap_area + unat HEAP_SIZE)"
    and top: "unat heap_area + unat HEAP_SIZE \<le> 2 ^ 64"
    by (auto simp: chain_inv_def)
  have ar: "unat heap_area + unat HEAP_SIZE \<le> unat heap_area + 65536" by simp
  have c: "c \<in> set (pre @ c # post)" by simp
  from pre fit have "find (fits (mem s) (align8 sz)) (pre @ c # post) = Some c"
    by (rule find_first)
  with pa have m: "malloc s sz =
      (case take_block (mem s) c (align8 sz) of
             Inl e \<Rightarrow> Some (Inl e)
           | Inr (m, p) \<Rightarrow> Some (Inr (s\<lparr>mem := m\<rparr>, p)))"
    by (simp add: malloc_path)
  show ?thesis
  proof (cases "splits (mem s) (align8 sz) c")
    case True
    define nb where "nb = c + HEADER_SIZE + align8 sz"
    from split_inside(1) [OF co top ar c fit True]
    have un: "unat nb = unat c + 24 + unat (align8 sz)" by (simp add: nb_def)
    have "nb \<noteq> NULL" using un by (auto simp: NULL_def)
    moreover have "nb \<noteq> c" using un by auto
    ultimately have n: "c + HEADER_SIZE + align8 sz \<noteq> NULL"
      "c + HEADER_SIZE + align8 sz \<noteq> c"
      by (simp_all add: nb_def)
    from take_block_split [OF True n] True show ?thesis unfolding m by simp
  next
    case False
    from take_block_nosplit [OF False] False show ?thesis
      unfolding m by (simp add: set_free_def)
  qed
qed

lemma exact_fit_no_split:
  assumes inv: "chain_inv heap_area s ps" and c: "c \<in> set ps"
    and e: "size_f (mem s c) = sz"
  shows "\<not> splits (mem s) sz c"
proof -
  from chain_block_small [OF inv c] e have "unat sz \<le> 65512" by simp
  then have "unat (sz + 24 + 8) = unat sz + 32" by (simp add: unat_word_ariths)
  then show ?thesis by (simp add: splits_def e word_le_nat_alt HEADER_SIZE_def)
qed



text \<open>An allocated block stays in the chain through the coalescing pass.\<close>

lemma coalesce_on_keeps_live:
  "free_f (m a) = 0 \<Longrightarrow> a \<in> set ps \<Longrightarrow> a \<in> set (snd (coalesce_on m ps))"
proof (induction m ps rule: coalesce_on.induct)
  case (1 m c n rest)
  show ?case
  proof (cases "free_f (m c) \<noteq> 0 \<and> free_f (m n) \<noteq> 0")
    case True
    with "1.prems" have "a \<in> set (c # rest)" by auto
    moreover from "1.prems"(1) have "free_f (merge_next m c a) = 0" by simp
    ultimately show ?thesis using "1.IH"(1) [OF True] True by simp
  next
    case False
    show ?thesis
    proof (cases "a = c")
      case True
      with False show ?thesis by (auto split: prod.splits)
    next
      case ne: False
      with "1.prems" have "a \<in> set (n # rest)" by auto
      from "1.IH"(2) [OF False "1.prems"(1) this] False show ?thesis
        by (auto split: prod.splits)
    qed
  qed
qed simp_all

subsection \<open>What an allocation and a release leave untouched\<close>

lemma malloc_frame:
  assumes chain_inv: "chain_inv heap_area s ps" and b: "b \<in> set ps" "free_f (mem s b) = 0"
    and ma: "malloc s sz = Some (Inr (s', p))"
  shows "mem s' b = mem s b"
    and "mem s' x \<noteq> mem s x \<Longrightarrow>
           p - HEADER_SIZE \<in> set ps \<and> free_f (mem s (p - HEADER_SIZE)) \<noteq> 0 \<and>
           header_bytes x \<subseteq> block_bytes (mem s) (p - HEADER_SIZE) \<and>
           header_bytes x \<inter> block_bytes (mem s) b = {}"
proof -
  from chain_inv have pa: "path (mem s) (free_list s) ps"
    and co: "contiguous (mem s) (unat heap_area) ps (unat heap_area + unat HEAP_SIZE)"
    and top: "unat heap_area + unat HEAP_SIZE \<le> 2 ^ 64"
    by (auto simp: chain_inv_def)
  have ar: "unat heap_area + unat HEAP_SIZE \<le> unat heap_area + 65536" by simp
  have "mem s' b = mem s b \<and> (mem s' x \<noteq> mem s x \<longrightarrow>
           p - HEADER_SIZE \<in> set ps \<and> free_f (mem s (p - HEADER_SIZE)) \<noteq> 0 \<and>
           header_bytes x \<subseteq> block_bytes (mem s) (p - HEADER_SIZE) \<and>
           header_bytes x \<inter> block_bytes (mem s) b = {})"
  proof (cases "find (fits (mem s) (align8 sz)) ps")
    case None
    from malloc_path [OF pa, of sz] None ma have "s' = s" by simp
    then show ?thesis by simp
  next
    case (Some c)
    then have c: "c \<in> set ps" "fits (mem s) (align8 sz) c"
      by (auto simp: find_Some_iff)
    let ?nb = "c + HEADER_SIZE + align8 sz"
    from take_block_inv [OF pa co top ar c] obtain m' where
      tb: "take_block (mem s) c (align8 sz) = Inr (m', c + HEADER_SIZE)"
      and fr: "\<forall>x. x \<noteq> c \<longrightarrow> x \<noteq> ?nb \<longrightarrow> m' x = mem s x"
      by blast
    from ma pa Some tb have "s' = s\<lparr>mem := m'\<rparr>" and s'2: "p = c + HEADER_SIZE"
      by (auto simp: malloc_path)
    then have s'1: "mem s' = m'" by simp
    note s' = s'1 s'2
    then have pc: "p - HEADER_SIZE = c" by simp
    from c(2) b(2) have bc: "b \<noteq> c" by (auto simp: fits_def)
    from blocks_disjoint [OF co c(1) b(1)] bc
    have dj: "block_bytes (mem s) c \<inter> block_bytes (mem s) b = {}" by auto
    have cfree: "free_f (mem s c) \<noteq> 0" using c(2) by (simp add: fits_def)
    show ?thesis
    proof (cases "splits (mem s) (align8 sz) c")
      case False
      with tb have m': "m' = set_free (mem s) c 0" by (simp add: take_block_nosplit)
      have "mem s' b = mem s b" using bc by (simp add: s' m' set_free_def)
      moreover have "mem s' x \<noteq> mem s x \<Longrightarrow> x = c"
        by (auto simp: s' m' set_free_def split: if_splits)
      ultimately show ?thesis using pc c(1) cfree dj header_in_block [of c "mem s"] by blast
    next
      case True
      note si = split_inside [OF co top ar c True]
      have nbin: "header_bytes ?nb \<subseteq> block_bytes (mem s) c"
        using si by (auto simp: header_bytes_def block_bytes_def)
      have "header_bytes ?nb \<inter> block_bytes (mem s) b = {}" using nbin dj by blast
      moreover have "unat b \<in> block_bytes (mem s) b" by (simp add: block_bytes_def)
      moreover have "unat ?nb \<in> header_bytes ?nb" by (simp add: header_bytes_def)
      ultimately have bn: "b \<noteq> ?nb" by auto
      from fr bc bn have 1: "mem s' b = mem s b" by (simp add: s')
      have "mem s' x \<noteq> mem s x \<Longrightarrow> x = c \<or> x = ?nb" using fr by (auto simp: s')
      then have "mem s' x \<noteq> mem s x \<Longrightarrow> header_bytes x \<subseteq> block_bytes (mem s) c"
        using nbin header_in_block [of c "mem s"] by blast
      with 1 pc c(1) cfree dj show ?thesis by blast
    qed
  qed
  then show "mem s' b = mem s b"
    and "mem s' x \<noteq> mem s x \<Longrightarrow>
           p - HEADER_SIZE \<in> set ps \<and> free_f (mem s (p - HEADER_SIZE)) \<noteq> 0 \<and>
           header_bytes x \<subseteq> block_bytes (mem s) (p - HEADER_SIZE) \<and>
           header_bytes x \<inter> block_bytes (mem s) b = {}"
    by blast+
qed

lemma free_frame:
  assumes chain_inv: "chain_inv heap_area s ps" and b: "b \<in> set ps" "free_f (mem s b) = 0"
    and ptr: "ptr - HEADER_SIZE \<in> set ps" "ptr - HEADER_SIZE \<noteq> b"
    and fr: "free s ptr = Some (Inr s')"
  shows "mem s' b = mem s b"
    and "mem s' x \<noteq> mem s x \<Longrightarrow>
           x \<in> set ps \<and> (x = ptr - HEADER_SIZE \<or> free_f (mem s x) \<noteq> 0) \<and>
           header_bytes x \<inter> block_bytes (mem s) b = {}"
proof -
  from chain_inv have pa: "path (mem s) (free_list s) ps"
    and co: "contiguous (mem s) (unat heap_area) ps (unat heap_area + unat HEAP_SIZE)"
    by (auto simp: chain_inv_def)
  let ?blk = "ptr - HEADER_SIZE"
  let ?m1 = "set_free (mem s) ?blk 1"
  from path_NULL_notin [OF pa] ptr(1) have nn: "?blk \<noteq> NULL" by auto
  show 1: "mem s' b = mem s b"
  proof (cases "ptr = NULL")
    case True
    with fr show ?thesis by (simp add: free_def)
  next
    case False
    from fr free_path(1) [OF pa False nn] have s': "mem s' = fst (coalesce_on ?m1 ps)" by auto
    have "free_f (?m1 b) = 0" using b(2) ptr(2) by (simp add: set_free_def)
    from coalesce_on_live [of ?m1 b ps, OF this] ptr(2) show ?thesis by (simp add: s' set_free_def)
  qed
  assume ch: "mem s' x \<noteq> mem s x"
  then have np: "ptr \<noteq> NULL" using fr by (auto simp: free_def)
  from fr free_path(1) [OF pa np nn] have s': "mem s' = fst (coalesce_on ?m1 ps)" by auto
  have xin: "x \<in> set ps"
  proof (rule ccontr)
    assume n: "x \<notin> set ps"
    with ptr(1) have "x \<noteq> ?blk" by auto
    with coalesce_on_frame [of x ps ?m1, OF n] ch show False by (simp add: s' set_free_def)
  qed
  have xf: "x = ?blk \<or> free_f (mem s x) \<noteq> 0"
  proof (rule ccontr)
    assume "\<not> (x = ?blk \<or> free_f (mem s x) \<noteq> 0)"
    then have n: "x \<noteq> ?blk" "free_f (?m1 x) = 0" by (simp_all add: set_free_def)
    from coalesce_on_live [of ?m1 x ps, OF n(2)] n(1) ch show False by (simp add: s' set_free_def)
  qed
  from ch 1 have "x \<noteq> b" by auto
  from blocks_disjoint [OF co xin b(1) this] header_in_block [of x "mem s"]
  have "header_bytes x \<inter> block_bytes (mem s) b = {}" by blast
  with xin xf show "x \<in> set ps \<and> (x = ptr - HEADER_SIZE \<or> free_f (mem s x) \<noteq> 0) \<and>
           header_bytes x \<inter> block_bytes (mem s) b = {}" by blast
qed

subsection \<open>Rounding\<close>

lemma and_not_diff: "x AND NOT m = x - (x AND m)" for x m :: "64 word"
proof -
  have "NOT x AND (x AND m) = 0"
    by (simp add: bit_eq_iff bit_and_iff bit_not_iff)
  then have "x - (x AND m) = x AND NOT (x AND m)"
    by (rule disjunctive_diff_eq_and_not)
  also have "\<dots> = x AND NOT m"
    by (auto simp: bit_eq_iff bit_and_iff bit_not_iff bit_or_iff)
  finally show ?thesis by simp
qed

lemma align8_ge:
  assumes "unat sz + 7 < 2 ^ 64"
  shows "sz \<le> align8 sz"
proof -
  let ?x = "sz + 7"
  from assms have x: "unat ?x = unat sz + 7" by (simp add: unat_word_ariths)
  have "?x AND 7 \<le> 7" by (rule word_and_le1)
  then have a: "unat (?x AND 7) \<le> 7" by (simp add: word_le_nat_alt)
  have "?x AND 7 \<le> ?x" by (rule word_and_le2)
  then have "unat (?x - (?x AND 7)) = unat ?x - unat (?x AND 7)" by (simp add: unat_sub)
  with x a have "unat sz \<le> unat (?x - (?x AND 7))" by simp
  then show ?thesis unfolding align8_def and_not_diff by (simp only: word_le_nat_alt)
qed

subsection \<open>The concrete states\<close>

lemmas model_defs = take_block_def HEADER_SIZE_def NULL_def HEAP_SIZE_def
     Let_def set_size_def set_next_def set_free_def zero_header_def merge_next_def align8_def
     fits_def

lemma init_heap0: "init_heap 4096 boot_state = Inr heap0"
  by (simp add: init_heap_def boot_state_def heap0_def model_defs)

lemma malloc_heap0: "malloc heap0 100 = Some (Inr (heap1, 4120))"
  by (simp add: malloc_def malloc_loop.simps heap0_def heap1_def model_defs fun_eq_iff)

lemma reachable_heap1: "reachable 4096 heap1"
proof -
  have "unat (4096 :: addr) + unat HEAP_SIZE \<le> 2 ^ 64" by simp
  then have "reachable 4096 heap0" using init_heap0 by (rule reachable.init)
  then show ?thesis using malloc_heap0 by (rule reachable.alloc)
qed

lemma malloc_heap1: "malloc heap1 100 = Some (Inr (heap4, 4248))"
  by (simp add: malloc_def malloc_loop.simps heap1_def heap4_def model_defs fun_eq_iff)

lemma free_heap4: "free heap4 4120 = Some (Inr heap3)"
  by (simp add: free_def coalesce.simps heap4_def heap3_def model_defs fun_eq_iff)

lemma reachable_heap3: "reachable 4096 heap3"
proof -
  from reachable_heap1 malloc_heap1 have r: "reachable 4096 heap4" by (rule reachable.alloc)
  have p: "path (mem heap4) (free_list heap4) [4096, 4224, 4352]"
    by (simp add: heap4_def NULL_def)
  have "4120 = NULL \<or> 4120 - HEADER_SIZE \<in> set [4096, 4224, 4352]"
    by (simp add: HEADER_SIZE_def)
  with r p show ?thesis using free_heap4 by (rule reachable.release)
qed

lemma path_heap3: "path (mem heap3) (free_list heap3) [4096, 4224, 4352]"
  by (simp add: heap3_def NULL_def)

lemma inv_heap3: "chain_inv 4096 heap3 [4096, 4224, 4352]"
  by (simp add: chain_inv_def heap3_def NULL_def)

lemma inv_heap4: "chain_inv 4096 heap4 [4096, 4224, 4352]"
  by (simp add: chain_inv_def heap4_def NULL_def)

section \<open>The claims\<close>

subsection \<open>C1: first fit\<close>

text \<open>
  C1. When the chain is \<open>pre @ c # post\<close>, no header of \<open>pre\<close> passes the test
  \<open>free && size >= roundedSize\<close> and \<open>c\<close> passes it, then \<open>malloc\<close> returns the payload
  pointer of \<open>c\<close>, that is \<open>c + HEADER_SIZE\<close>, and \<open>c\<close> is marked allocated: the block
  chosen is the first one in chain order that fits, whatever comes later in the chain and
  however well it fits. The last hypothesis says that the address computed for the header
  of a split is not the null address.
\<close>

theorem malloc_first_fit:
  assumes "path (mem s) (free_list s) (pre @ c # post)"
    and "\<forall>q\<in>set pre. \<not> fits (mem s) (align8 sz) q"
    and "fits (mem s) (align8 sz) c"
    and "c + HEADER_SIZE + align8 sz \<noteq> NULL"
  shows "\<exists>s'. malloc s sz = Some (Inr (s', c + HEADER_SIZE)) \<and> free_f (mem s' c) = 0"
proof -
  from assms(2,3) have "find (fits (mem s) (align8 sz)) (pre @ c # post) = Some c"
    by (rule find_first)
  with assms(1) have m: "malloc s sz =
      (case take_block (mem s) c (align8 sz) of
             Inl e \<Rightarrow> Some (Inl e)
           | Inr (m, p) \<Rightarrow> Some (Inr (s\<lparr>mem := m\<rparr>, p)))"
    by (simp add: malloc_path)
  from take_block_returns [OF assms(4)] obtain m' where
    "take_block (mem s) c (align8 sz) = Inr (m', c + HEADER_SIZE)" and "free_f (m' c) = 0"
    by blast
  with m show ?thesis by simp
qed

theorem malloc_first_fit_witness:
  "path (mem heap3) (free_list heap3) ([4096, 4224] @ 4352 # []) \<and>
   \<not> fits (mem heap3) (align8 200) 4096 \<and>
   \<not> fits (mem heap3) (align8 200) 4224 \<and>
   fits (mem heap3) (align8 200) 4352 \<and>
   4352 + HEADER_SIZE + align8 200 \<noteq> NULL \<and>
   (\<exists>s'. malloc heap3 200 = Some (Inr (s', 4352 + HEADER_SIZE)) \<and> free_f (mem s' 4352) = 0)"
proof -
  have 1: "path (mem heap3) (free_list heap3) ([4096, 4224] @ 4352 # [])"
    by (simp add: heap3_def NULL_def)
  have 2: "\<not> fits (mem heap3) (align8 200) 4096" "\<not> fits (mem heap3) (align8 200) 4224"
    by (simp_all add: heap3_def model_defs)
  then have al: "\<forall>q\<in>set [4096, 4224]. \<not> fits (mem heap3) (align8 200) q"
    by simp
  have 3: "fits (mem heap3) (align8 200) 4352"
    by (simp add: heap3_def model_defs)
  have 4: "4352 + HEADER_SIZE + align8 200 \<noteq> NULL"
    by (simp add: model_defs)
  from malloc_first_fit [OF 1 al 3 4] 1 2 3 4 show ?thesis by blast
qed

subsection \<open>C2: conservation\<close>

text \<open>
  C2. In every state reached by \<open>init_heap\<close> followed by any calls of \<open>malloc\<close> and
  \<open>free\<close>, the chain is a finite list and the sum over its blocks of header size plus
  block size is the capacity \<open>HEAP_SIZE\<close> of the arena. Splits and merges are steps of
  \<open>reachable\<close>, so each of them keeps the sum.
\<close>

theorem reachable_conservation:
  assumes "reachable heap_area s"
  shows "\<exists>ps. path (mem s) (free_list s) ps \<and>
           (\<Sum>p\<leftarrow>ps. unat HEADER_SIZE + unat (size_f (mem s p))) = unat HEAP_SIZE"
proof -
  from reachable_inv [OF assms] obtain ps where "chain_inv heap_area s ps" ..
  then have pa: "path (mem s) (free_list s) ps"
    and co: "contiguous (mem s) (unat heap_area) ps (unat heap_area + unat HEAP_SIZE)"
    by (auto simp: chain_inv_def)
  from contiguous_sum [OF co]
  have "(\<Sum>p\<leftarrow>ps. unat HEADER_SIZE + unat (size_f (mem s p))) = unat HEAP_SIZE"
    by simp
  with pa show ?thesis by blast
qed

theorem reachable_conservation_witness:
  "reachable 4096 heap3 \<and>
   (\<exists>ps. path (mem heap3) (free_list heap3) ps \<and>
         (\<Sum>p\<leftarrow>ps. unat HEADER_SIZE + unat (size_f (mem heap3 p))) = unat HEAP_SIZE)"
  using reachable_conservation [OF reachable_heap3] reachable_heap3 by blast

subsection \<open>C3: maximal coalescing\<close>

text \<open>
  C3. For every state with a finite chain and every non-null pointer to the payload of a
  block of the chain, \<open>free\<close> returns, and in the state it leaves no two neighbours of the
  chain are both free. The states that satisfy the invariants of the specification are
  among these; they are the ones in which the headers do not overlap, so that the store
  is the memory of the C program.
\<close>

theorem free_no_adjacent_free:
  assumes "path (mem s) (free_list s) ps"
    and "ptr \<noteq> NULL" and "ptr - HEADER_SIZE \<in> set ps"
  shows "\<exists>s' ps'. free s ptr = Some (Inr s') \<and> path (mem s') (free_list s') ps' \<and>
           no_adjacent_free (mem s') ps'"
proof -
  from path_NULL_notin [OF assms(1)] assms(3) have nn: "ptr - HEADER_SIZE \<noteq> NULL" by auto
  let ?m1 = "set_free (mem s) (ptr - HEADER_SIZE) 1"
  note fp = free_path [OF assms(1,2) nn]
  from coalesce_path [OF fp(2)] coalesce_on_naf [of ?m1 ps] fp(1)
  show ?thesis by auto
qed

theorem free_no_adjacent_free_witness:
  "path (mem heap3) (free_list heap3) [4096, 4224, 4352] \<and>
   4248 \<noteq> NULL \<and> 4248 - HEADER_SIZE \<in> set [4096, 4224, 4352] \<and>
   (\<exists>s' ps'. free heap3 4248 = Some (Inr s') \<and> path (mem s') (free_list s') ps' \<and>
              no_adjacent_free (mem s') ps')"
proof -
  have 2: "4248 \<noteq> NULL" by (simp add: NULL_def)
  have 3: "4248 - HEADER_SIZE \<in> set [4096, 4224, 4352]" by (simp add: HEADER_SIZE_def)
  from free_no_adjacent_free [OF path_heap3 2 3] path_heap3 2 3 show ?thesis by blast
qed

subsection \<open>C4: when a block is split\<close>

text \<open>
  C4 as stated fails. The claim has a split only when the size of the block is strictly
  greater than \<open>roundedSize + headerSize + 8\<close>. After \<open>init_heap\<close> the one block has
  size 65512, and a request of 65480 bytes makes \<open>roundedSize + headerSize + 8\<close> equal to
  65512: the size does not exceed it, and \<open>malloc\<close> splits all the same, leaving a new
  free header at 69600 with 8 bytes of payload.
\<close>

theorem malloc_split_at_equality:
  "malloc heap0 65480 =
     Some (Inr (\<lparr>mem = (mem heap0)
                   (69600 := \<lparr>size_f = 8, next_f = NULL, free_f = 1\<rparr>,
                    4096 := \<lparr>size_f = 65480, next_f = 69600, free_f = 0\<rparr>),
                 free_list = 4096\<rparr>, 4120)) \<and>
   \<not> align8 65480 + HEADER_SIZE + 8 < size_f (mem heap0 4096)"
  by (simp add: malloc_def malloc_loop.simps heap0_def model_defs fun_eq_iff)

text \<open>
  C4, amended. In every state that satisfies the chain invariant, \<open>malloc\<close> splits the
  first fitting block \<open>c\<close> if and only if its size is at least
  \<open>roundedSize + headerSize + 8\<close>. When it splits, the new header is at
  \<open>c + headerSize + roundedSize\<close> with size \<open>size c - roundedSize - headerSize\<close>,
  \<open>free = 1\<close> and the old successor of \<open>c\<close> as \<open>next\<close>; \<open>c\<close> gets size \<open>roundedSize\<close>, the
  new header as \<open>next\<close> and \<open>free = 0\<close>. Otherwise only the flag of \<open>c\<close> changes. Nothing
  else in memory changes in either case. A request whose rounded size is exactly the size
  of \<open>c\<close> does not split.
\<close>

theorem malloc_split_rule:
  assumes "chain_inv heap_area s (pre @ c # post)"
    and "\<forall>q\<in>set pre. \<not> fits (mem s) (align8 sz) q"
    and "fits (mem s) (align8 sz) c"
  shows "malloc s sz =
     Some (Inr (s\<lparr>mem :=
                   if align8 sz + HEADER_SIZE + 8 \<le> size_f (mem s c)
                   then (mem s)
                     (c + HEADER_SIZE + align8 sz :=
                        (mem s (c + HEADER_SIZE + align8 sz))
                          \<lparr>size_f := size_f (mem s c) - align8 sz - HEADER_SIZE,
                           next_f := next_f (mem s c), free_f := 1\<rparr>,
                      c := (mem s c)\<lparr>size_f := align8 sz,
                                     next_f := c + HEADER_SIZE + align8 sz, free_f := 0\<rparr>)
                   else (mem s)(c := (mem s c)\<lparr>free_f := 0\<rparr>)\<rparr>,
                c + HEADER_SIZE))
     \<and> (size_f (mem s c) = align8 sz \<longrightarrow>
          \<not> align8 sz + HEADER_SIZE + 8 \<le> size_f (mem s c))"
proof
  show "malloc s sz =
     Some (Inr (s\<lparr>mem :=
                   if align8 sz + HEADER_SIZE + 8 \<le> size_f (mem s c)
                   then (mem s)
                     (c + HEADER_SIZE + align8 sz :=
                        (mem s (c + HEADER_SIZE + align8 sz))
                          \<lparr>size_f := size_f (mem s c) - align8 sz - HEADER_SIZE,
                           next_f := next_f (mem s c), free_f := 1\<rparr>,
                      c := (mem s c)\<lparr>size_f := align8 sz,
                                     next_f := c + HEADER_SIZE + align8 sz, free_f := 0\<rparr>)
                   else (mem s)(c := (mem s c)\<lparr>free_f := 0\<rparr>)\<rparr>,
                c + HEADER_SIZE))"
    using malloc_result [OF assms] by (simp add: splits_def)
  have c: "c \<in> set (pre @ c # post)" by simp
  show "size_f (mem s c) = align8 sz \<longrightarrow>
          \<not> align8 sz + HEADER_SIZE + 8 \<le> size_f (mem s c)"
    using exact_fit_no_split [OF assms(1) c, of "align8 sz"] by (simp add: splits_def)
qed

theorem malloc_split_rule_witness:
  "chain_inv 4096 heap3 ([4096, 4224] @ 4352 # []) \<and>
   \<not> fits (mem heap3) (align8 200) 4096 \<and>
   \<not> fits (mem heap3) (align8 200) 4224 \<and>
   fits (mem heap3) (align8 200) 4352 \<and>
   align8 200 + HEADER_SIZE + 8 \<le> size_f (mem heap3 4352) \<and>
   malloc heap3 200 =
     Some (Inr (heap3\<lparr>mem := (mem heap3)
                  (4352 + HEADER_SIZE + align8 200 :=
                     (mem heap3 (4352 + HEADER_SIZE + align8 200))
                       \<lparr>size_f := size_f (mem heap3 4352) - align8 200 - HEADER_SIZE,
                        next_f := next_f (mem heap3 4352), free_f := 1\<rparr>,
                   4352 := (mem heap3 4352)\<lparr>size_f := align8 200,
                                  next_f := 4352 + HEADER_SIZE + align8 200, free_f := 0\<rparr>)\<rparr>,
                4352 + HEADER_SIZE)) \<and>
   chain_inv 4096 heap3 ([] @ 4096 # [4224, 4352]) \<and>
   fits (mem heap3) (align8 104) 4096 \<and>
   size_f (mem heap3 4096) = align8 104 \<and>
   malloc heap3 104 =
     Some (Inr (heap3\<lparr>mem := (mem heap3)(4096 := (mem heap3 4096)\<lparr>free_f := 0\<rparr>)\<rparr>,
                4096 + HEADER_SIZE))"
proof -
  have 1: "chain_inv 4096 heap3 ([4096, 4224] @ 4352 # [])"
    using inv_heap3 by (simp only: append.simps)
  have 2: "\<not> fits (mem heap3) (align8 200) 4096" "\<not> fits (mem heap3) (align8 200) 4224"
    by (simp_all add: heap3_def model_defs)
  then have al: "\<forall>q\<in>set [4096, 4224]. \<not> fits (mem heap3) (align8 200) q"
    by simp
  have 3: "fits (mem heap3) (align8 200) 4352"
    by (simp add: heap3_def model_defs)
  have 6: "align8 200 + HEADER_SIZE + 8 \<le> size_f (mem heap3 4352)"
    by (simp add: heap3_def model_defs)
  from malloc_split_rule [OF 1 al 3] 6
  have split: "malloc heap3 200 =
     Some (Inr (heap3\<lparr>mem := (mem heap3)
                  (4352 + HEADER_SIZE + align8 200 :=
                     (mem heap3 (4352 + HEADER_SIZE + align8 200))
                       \<lparr>size_f := size_f (mem heap3 4352) - align8 200 - HEADER_SIZE,
                        next_f := next_f (mem heap3 4352), free_f := 1\<rparr>,
                   4352 := (mem heap3 4352)\<lparr>size_f := align8 200,
                                  next_f := 4352 + HEADER_SIZE + align8 200, free_f := 0\<rparr>)\<rparr>,
                4352 + HEADER_SIZE))"
    by (simp only: if_True)
  have e1: "chain_inv 4096 heap3 ([] @ 4096 # [4224, 4352])"
    using inv_heap3 by (simp only: append.simps)
  have e2: "\<forall>q\<in>set []. \<not> fits (mem heap3) (align8 104) q"
    by simp
  have e3: "fits (mem heap3) (align8 104) 4096"
    by (simp add: heap3_def model_defs)
  have e6: "size_f (mem heap3 4096) = align8 104"
    by (simp add: heap3_def model_defs)
  note ex = malloc_split_rule [OF e1 e2 e3]
  from ex e6 have "\<not> align8 104 + HEADER_SIZE + 8 \<le> size_f (mem heap3 4096)"
    by blast
  with ex have exact: "malloc heap3 104 =
     Some (Inr (heap3\<lparr>mem := (mem heap3)(4096 := (mem heap3 4096)\<lparr>free_f := 0\<rparr>)\<rparr>,
                4096 + HEADER_SIZE))"
    by (simp only: if_False)
  from 1 2 3 6 split e1 e3 e6 exact show ?thesis by blast
qed

subsection \<open>C5: the size of the returned block\<close>

text \<open>
  C5 does not hold of the code. The comment on \<open>malloc\<close> promises a block of at least
  \<open>size\<close> bytes, but the rounding \<open>(size + 7) & ~7\<close> wraps around for the eight largest
  values of \<open>size_t\<close>. After \<open>init_heap\<close>, a request of \<open>2^64 - 1\<close> bytes is rounded to 0:
  \<open>malloc\<close> succeeds, returns the payload pointer 4120 of the block at 4096, and records
  the size 0 for it.
\<close>

theorem malloc_size_max:
  "malloc heap0 18446744073709551615 =
     Some (Inr (\<lparr>mem = (mem heap0)
                   (4120 := \<lparr>size_f = 65488, next_f = NULL, free_f = 1\<rparr>,
                    4096 := \<lparr>size_f = 0, next_f = 4120, free_f = 0\<rparr>),
                 free_list = 4096\<rparr>, 4120)) \<and>
   align8 18446744073709551615 = 0"
  by (simp add: malloc_def malloc_loop.simps heap0_def model_defs fun_eq_iff)

text \<open>
  In the states of the chain invariant, for every request that the rounding does not
  wrap, the recorded size of the returned block is at least the request.
\<close>

lemma malloc_size_ok:
  assumes "chain_inv heap_area s (pre @ c # post)"
    and "\<forall>q\<in>set pre. \<not> fits (mem s) (align8 sz) q"
    and "fits (mem s) (align8 sz) c"
    and "unat sz + 7 < 2 ^ 64"
  shows "\<exists>s'. malloc s sz = Some (Inr (s', c + HEADER_SIZE)) \<and> sz \<le> size_f (mem s' c)"
proof -
  from align8_ge [OF assms(4)] have le: "sz \<le> align8 sz" .
  from assms(3) have "align8 sz \<le> size_f (mem s c)" by (simp add: fits_def)
  with le have "sz \<le> size_f (mem s c)" by simp
  with le malloc_result [OF assms(1-3)] show ?thesis by simp
qed

subsection \<open>C6: address order\<close>

text \<open>
  C6. In every reachable state the chain is a finite list of strictly increasing
  addresses, and its blocks tile the arena in this order: each header is where the block
  before it ends. A \<open>malloc\<close> from such a state leaves the chain as it is or puts one new
  header right after the chosen block, at the address \<open>p + roundedSize\<close> behind its
  payload pointer \<open>p\<close>; a \<open>free\<close> leaves a subsequence of the chain. The chain is in
  strictly increasing order after both.
\<close>

theorem reachable_address_order:
  assumes "reachable heap_area s"
  shows "\<exists>ps. path (mem s) (free_list s) ps \<and> sorted_wrt (<) ps \<and>
           contiguous (mem s) (unat heap_area) ps (unat heap_area + unat HEAP_SIZE) \<and>
           (\<forall>sz s' p. malloc s sz = Some (Inr (s', p)) \<longrightarrow>
              (\<exists>ps'. path (mem s') (free_list s') ps' \<and> sorted_wrt (<) ps' \<and>
                 (ps' = ps \<or>
                  (\<exists>pre post. ps = pre @ (p - HEADER_SIZE) # post \<and>
                     ps' = pre @ (p - HEADER_SIZE) # (p + align8 sz) # post)))) \<and>
           (\<forall>ptr s'. ptr = NULL \<or> ptr - HEADER_SIZE \<in> set ps \<longrightarrow>
              free s ptr = Some (Inr s') \<longrightarrow>
              (\<exists>ps'. path (mem s') (free_list s') ps' \<and> sorted_wrt (<) ps' \<and> subseq ps' ps))"
proof -
  from reachable_inv [OF assms] obtain ps where inv: "chain_inv heap_area s ps" ..
  have ord: "\<And>t qs. chain_inv heap_area t qs \<Longrightarrow>
      path (mem t) (free_list t) qs \<and> sorted_wrt (<) qs \<and>
      contiguous (mem t) (unat heap_area) qs (unat heap_area + unat HEAP_SIZE)"
    using contiguous_sorted by (auto simp: chain_inv_def)
  have "\<exists>ps'. path (mem s') (free_list s') ps' \<and> sorted_wrt (<) ps' \<and>
                 (ps' = ps \<or>
                  (\<exists>pre post. ps = pre @ (p - HEADER_SIZE) # post \<and>
                     ps' = pre @ (p - HEADER_SIZE) # (p + align8 sz) # post))"
    if "malloc s sz = Some (Inr (s', p))" for sz s' p
    using malloc_chain [OF inv that] ord by blast
  moreover have "\<exists>ps'. path (mem s') (free_list s') ps' \<and> sorted_wrt (<) ps' \<and> subseq ps' ps"
    if "ptr = NULL \<or> ptr - HEADER_SIZE \<in> set ps" "free s ptr = Some (Inr s')" for ptr s'
    using free_chain [OF inv that] ord by blast
  ultimately show ?thesis using ord [OF inv] by blast
qed

theorem reachable_address_order_witness:
  "reachable 4096 heap3 \<and>
   (\<exists>ps. path (mem heap3) (free_list heap3) ps \<and> sorted_wrt (<) ps \<and>
      contiguous (mem heap3) (unat (4096 :: addr)) ps (unat (4096 :: addr) + unat HEAP_SIZE) \<and>
      (\<forall>sz s' p. malloc heap3 sz = Some (Inr (s', p)) \<longrightarrow>
         (\<exists>ps'. path (mem s') (free_list s') ps' \<and> sorted_wrt (<) ps' \<and>
            (ps' = ps \<or>
             (\<exists>pre post. ps = pre @ (p - HEADER_SIZE) # post \<and>
                ps' = pre @ (p - HEADER_SIZE) # (p + align8 sz) # post)))) \<and>
      (\<forall>ptr s'. ptr = NULL \<or> ptr - HEADER_SIZE \<in> set ps \<longrightarrow>
         free heap3 ptr = Some (Inr s') \<longrightarrow>
         (\<exists>ps'. path (mem s') (free_list s') ps' \<and> sorted_wrt (<) ps' \<and> subseq ps' ps)))"
  using reachable_address_order [OF reachable_heap3] reachable_heap3 by blast

subsection \<open>C7: a failed allocation changes nothing\<close>

text \<open>
  C7. For every state with a finite chain in which no header passes the test
  \<open>free && size >= roundedSize\<close>, \<open>malloc\<close> returns \<open>NULL\<close> and the state it returns is
  the state it was given: every field of every header and the chain head are unchanged.
\<close>

theorem malloc_failure_unchanged:
  assumes "path (mem s) (free_list s) ps"
    and "\<forall>q\<in>set ps. \<not> fits (mem s) (align8 sz) q"
  shows "malloc s sz = Some (Inr (s, NULL))"
proof -
  from assms(2) have "find (fits (mem s) (align8 sz)) ps = None" by (rule find_none)
  with assms(1) show ?thesis by (simp add: malloc_path)
qed

theorem malloc_failure_unchanged_witness:
  "path (mem heap3) (free_list heap3) [4096, 4224, 4352] \<and>
   \<not> fits (mem heap3) (align8 70000) 4096 \<and>
   \<not> fits (mem heap3) (align8 70000) 4224 \<and>
   \<not> fits (mem heap3) (align8 70000) 4352 \<and>
   malloc heap3 70000 = Some (Inr (heap3, NULL))"
proof -
  have 2: "\<not> fits (mem heap3) (align8 70000) 4096" "\<not> fits (mem heap3) (align8 70000) 4224"
    "\<not> fits (mem heap3) (align8 70000) 4352"
    by (simp_all add: heap3_def model_defs)
  then have al: "\<forall>q\<in>set [4096, 4224, 4352]. \<not> fits (mem heap3) (align8 70000) q"
    by simp
  from malloc_failure_unchanged [OF path_heap3 al] path_heap3 2 show ?thesis by blast
qed

subsection \<open>C8: calls before init_heap\<close>




subsection \<open>C9: termination\<close>



subsection \<open>C10: live blocks are left alone\<close>

text \<open>
  C10. Let the state satisfy the chain invariant and let \<open>b\<close> be an allocated block of the
  chain. A \<open>malloc\<close> leaves every cell that lies inside \<open>b\<close>, its header and all of its
  payload, as it is; every header it changes lies inside the block it chose, which is a
  free block of the chain. A \<open>free\<close> of another block of the chain leaves every cell
  inside \<open>b\<close> as it is; every header it changes is a header of the chain, either the
  freed block or a block that was free.
\<close>

theorem live_blocks_frame:
  assumes "chain_inv heap_area s ps" and "b \<in> set ps" and "free_f (mem s b) = 0"
  shows "(\<forall>sz s' p. malloc s sz = Some (Inr (s', p)) \<longrightarrow>
            (\<forall>a. header_bytes a \<subseteq> block_bytes (mem s) b \<longrightarrow> mem s' a = mem s a) \<and>
            (\<forall>x. mem s' x \<noteq> mem s x \<longrightarrow>
               p - HEADER_SIZE \<in> set ps \<and> free_f (mem s (p - HEADER_SIZE)) \<noteq> 0 \<and>
               header_bytes x \<subseteq> block_bytes (mem s) (p - HEADER_SIZE)))
       \<and> (\<forall>ptr s'. ptr - HEADER_SIZE \<in> set ps \<longrightarrow> ptr - HEADER_SIZE \<noteq> b \<longrightarrow>
            free s ptr = Some (Inr s') \<longrightarrow>
            (\<forall>a. header_bytes a \<subseteq> block_bytes (mem s) b \<longrightarrow> mem s' a = mem s a) \<and>
            (\<forall>x. mem s' x \<noteq> mem s x \<longrightarrow>
               x \<in> set ps \<and> (x = ptr - HEADER_SIZE \<or> free_f (mem s x) \<noteq> 0)))"
proof (intro conjI allI impI)
  fix sz s' p a
  assume m: "malloc s sz = Some (Inr (s', p))"
    and a: "header_bytes a \<subseteq> block_bytes (mem s) b"
  show "mem s' a = mem s a"
  proof (rule ccontr)
    assume "mem s' a \<noteq> mem s a"
    from malloc_frame(2) [OF assms m this]
    have "header_bytes a \<inter> block_bytes (mem s) b = {}" by simp
    with a header_nonempty [of a] show False by blast
  qed
next
  fix sz s' p x
  assume m: "malloc s sz = Some (Inr (s', p))" and x: "mem s' x \<noteq> mem s x"
  from malloc_frame(2) [OF assms m x]
  show "p - HEADER_SIZE \<in> set ps" "free_f (mem s (p - HEADER_SIZE)) \<noteq> 0"
    "header_bytes x \<subseteq> block_bytes (mem s) (p - HEADER_SIZE)"
    by simp_all
next
  fix ptr s' a
  assume f: "ptr - HEADER_SIZE \<in> set ps" "ptr - HEADER_SIZE \<noteq> b" "free s ptr = Some (Inr s')"
    and a: "header_bytes a \<subseteq> block_bytes (mem s) b"
  show "mem s' a = mem s a"
  proof (rule ccontr)
    assume "mem s' a \<noteq> mem s a"
    from free_frame(2) [OF assms f this]
    have "header_bytes a \<inter> block_bytes (mem s) b = {}" by simp
    with a header_nonempty [of a] show False by blast
  qed
next
  fix ptr s' x
  assume f: "ptr - HEADER_SIZE \<in> set ps" "ptr - HEADER_SIZE \<noteq> b" "free s ptr = Some (Inr s')"
    and x: "mem s' x \<noteq> mem s x"
  from free_frame(2) [OF assms f x]
  show "x \<in> set ps" "x = ptr - HEADER_SIZE \<or> free_f (mem s x) \<noteq> 0"
    by simp_all
qed

theorem live_blocks_frame_witness:
  "chain_inv 4096 heap4 [4096, 4224, 4352] \<and> 4096 \<in> set [4096, 4224, 4352] \<and>
   free_f (mem heap4 4096) = 0 \<and>
   header_bytes 4096 \<subseteq> block_bytes (mem heap4) 4096 \<and>
   header_bytes 4200 \<subseteq> block_bytes (mem heap4) 4096 \<and>
   (\<exists>s'. malloc heap4 200 = Some (Inr (s', 4376)) \<and>
      mem s' 4096 = mem heap4 4096 \<and>
      mem s' 4200 = mem heap4 4200 \<and>
      mem s' 4352 \<noteq> mem heap4 4352 \<and>
      header_bytes 4352 \<subseteq> block_bytes (mem heap4) 4352 \<and>
      mem s' 4576 \<noteq> mem heap4 4576 \<and>
      header_bytes 4576 \<subseteq> block_bytes (mem heap4) 4352) \<and>
   4248 - HEADER_SIZE \<in> set [4096, 4224, 4352] \<and> 4248 - HEADER_SIZE \<noteq> 4096 \<and>
   (\<exists>s'. free heap4 4248 = Some (Inr s') \<and>
      mem s' 4096 = mem heap4 4096 \<and>
      mem s' 4200 = mem heap4 4200 \<and>
      mem s' 4224 \<noteq> mem heap4 4224)"
proof -
  have 2: "4096 \<in> set [4096, 4224, 4352]" by simp
  have 3: "free_f (mem heap4 4096) = 0" by (simp add: heap4_def)
  have 4: "4248 - HEADER_SIZE \<in> set [4096, 4224, 4352]" "4248 - HEADER_SIZE \<noteq> 4096"
    by (simp_all add: HEADER_SIZE_def)
  have 5: "header_bytes 4096 \<subseteq> block_bytes (mem heap4) 4096"
    "header_bytes 4200 \<subseteq> block_bytes (mem heap4) 4096"
    by (simp_all add: header_bytes_def block_bytes_def heap4_def)
  note fr = live_blocks_frame [OF inv_heap4 2 3]
  obtain s1 where m: "malloc heap4 200 = Some (Inr (s1, 4376))"
    and c1: "mem s1 4352 \<noteq> mem heap4 4352" "mem s1 4576 \<noteq> mem heap4 4576"
    by (simp add: malloc_def malloc_loop.simps heap4_def model_defs fun_eq_iff)
  obtain s2 where f: "free heap4 4248 = Some (Inr s2)" and c2: "mem s2 4224 \<noteq> mem heap4 4224"
    by (simp add: free_def coalesce.simps heap4_def model_defs fun_eq_iff)
  have p: "(4376 :: addr) - HEADER_SIZE = 4352" by (simp add: HEADER_SIZE_def)
  from fr m c1 p 5 have "mem s1 4096 = mem heap4 4096 \<and> mem s1 4200 = mem heap4 4200 \<and>
      header_bytes 4352 \<subseteq> block_bytes (mem heap4) 4352 \<and>
      header_bytes 4576 \<subseteq> block_bytes (mem heap4) 4352"
    by metis
  moreover from fr f 4 5 have "mem s2 4096 = mem heap4 4096 \<and> mem s2 4200 = mem heap4 4200"
    by metis
  ultimately show ?thesis using inv_heap4 2 3 4 5 m f c1 c2 by blast
qed

end
